theory Spec2Isabelle
  imports Complex_Main
begin

section \<open>Errors and Python built-ins\<close>

text \<open>
  Exceptions of the Python program are values: \<open>ValueError\<close> is what
  \<open>random.sample\<close> and \<open>textwrap.wrap\<close> raise on a bad argument,
  \<open>IndexError\<close> what a list read out of range raises, and \<open>SystemExit n\<close> is
  \<open>sys.exit(n)\<close>.
\<close>

datatype error = ValueError | IndexError | SystemExit int

text \<open>\<open>range(n)\<close> for an integer \<open>n\<close>: empty when \<open>n \<le> 0\<close>.\<close>

definition py_range :: "int \<Rightarrow> int list" where
  "py_range n = map int [0..<nat n]"

section \<open>Card sampler: \<open>generate_card\<close>\<close>

text \<open>
  \<open>cells_needed\<close> is computed the same way at the head of \<open>generate_card\<close> and of
  \<open>generate_pdf\<close>. Python's \<open>%\<close> and \<open>//\<close> on integers are floor modulus and
  floor division, as \<open>mod\<close> and \<open>div\<close> on \<open>int\<close> are.
\<close>

definition cells_needed :: "int \<Rightarrow> int \<Rightarrow> bool \<Rightarrow> int" where
  "cells_needed rows cols use_free_space =
     (if use_free_space \<and> rows mod 2 = 1 \<and> cols mod 2 = 1
      then rows * cols - 1 else rows * cols)"

text \<open>
  \<open>random.sample(population, k)\<close> is library code. It raises \<open>ValueError\<close> unless
  \<open>0 \<le> k \<le> len(population)\<close>, and otherwise returns the elements found at
  \<open>k\<close> pairwise different positions of the population, in the order drawn. The
  positions drawn are the random source's choice and are a parameter here
  (\<open>picks\<close>); \<open>valid_picks\<close> is the library's contract on them.
\<close>

definition random_sample :: "nat list \<Rightarrow> 'a list \<Rightarrow> int \<Rightarrow> error + 'a list" where
  "random_sample picks population k =
     (if k < 0 \<or> int (length population) < k then Inl ValueError
      else Inr (map (\<lambda>i. population ! i) picks))"

definition valid_picks :: "nat list \<Rightarrow> nat \<Rightarrow> int \<Rightarrow> bool" where
  "valid_picks picks n k \<longleftrightarrow>
     int (length picks) = k \<and> distinct picks \<and> (\<forall>i \<in> set picks. i < n)"

text \<open>
  The test \<open>use_free_space and rows % 2 == 1 and cols % 2 == 1 and r == center_r and
  c == center_c\<close>, with \<open>center_r, center_c = rows // 2, cols // 2\<close>. The source
  writes it out in \<open>generate_card\<close> and again, as \<open>is_free\<close>, in \<open>_draw_card\<close>.
\<close>

definition is_free :: "bool \<Rightarrow> int \<Rightarrow> int \<Rightarrow> int \<Rightarrow> int \<Rightarrow> bool" where
  "is_free use_free_space rows cols r c \<longleftrightarrow>
     use_free_space \<and> rows mod 2 = 1 \<and> cols mod 2 = 1 \<and> r = rows div 2 \<and> c = cols div 2"

text \<open>
  The inner loop \<open>for c in range(cols)\<close> of \<open>generate_card\<close>: the state is the row
  built so far and the counter \<open>idx\<close> into \<open>chosen\<close>. Reading \<open>chosen[idx]\<close> past
  the end raises \<open>IndexError\<close>.
\<close>

fun row_loop ::
  "string list \<Rightarrow> bool \<Rightarrow> string \<Rightarrow> int \<Rightarrow> int \<Rightarrow> int \<Rightarrow> int list \<Rightarrow>
   string list \<Rightarrow> nat \<Rightarrow> error + (string list \<times> nat)" where
  "row_loop chosen use_free_space free_space_text rows cols r [] row idx = Inr (row, idx)"
| "row_loop chosen use_free_space free_space_text rows cols r (c # cs) row idx =
     (if is_free use_free_space rows cols r c
      then row_loop chosen use_free_space free_space_text rows cols r cs
             (row @ [free_space_text]) idx
      else if idx < length chosen
      then row_loop chosen use_free_space free_space_text rows cols r cs
             (row @ [chosen ! idx]) (idx + 1)
      else Inl IndexError)"

text \<open>The outer loop \<open>for r in range(rows)\<close>: each row starts empty and is appended to the card
  (the variable \<open>card\<close> of the source, \<open>bcard\<close> here).\<close>

fun card_loop ::
  "string list \<Rightarrow> bool \<Rightarrow> string \<Rightarrow> int \<Rightarrow> int \<Rightarrow> int list \<Rightarrow>
   string list list \<Rightarrow> nat \<Rightarrow> error + (string list list \<times> nat)" where
  "card_loop chosen use_free_space free_space_text rows cols [] bcard idx = Inr (bcard, idx)"
| "card_loop chosen use_free_space free_space_text rows cols (r # rs) bcard idx =
     (case row_loop chosen use_free_space free_space_text rows cols r (py_range cols) [] idx of
        Inl e \<Rightarrow> Inl e
      | Inr (row, idx') \<Rightarrow>
          card_loop chosen use_free_space free_space_text rows cols rs (bcard @ [row]) idx')"

definition generate_card ::
  "nat list \<Rightarrow> string list \<Rightarrow> int \<Rightarrow> int \<Rightarrow> bool \<Rightarrow> string \<Rightarrow> error + string list list" where
  "generate_card picks items rows cols use_free_space free_space_text =
     (case random_sample picks items (cells_needed rows cols use_free_space) of
        Inl e \<Rightarrow> Inl e
      | Inr chosen \<Rightarrow>
          (case card_loop chosen use_free_space free_space_text rows cols (py_range rows) [] 0 of
             Inl e \<Rightarrow> Inl e
           | Inr (bcard, idx) \<Rightarrow> Inr bcard))"

section \<open>Card renderer: layout constants and the canvas\<close>

text \<open>
  \<open>inch\<close> and \<open>LETTER\<close> come from reportlab: one inch is 72 points and the letter
  page is 8.5 by 11 inches. Python's floats are modelled by the reals: the geometry is
  stated over exact arithmetic.
\<close>

definition inch :: real where
  "inch = 72"

definition PAGE_WIDTH :: real where
  "PAGE_WIDTH = 8.5 * inch"

definition PAGE_HEIGHT :: real where
  "PAGE_HEIGHT = 11 * inch"

definition MARGIN :: real where
  "MARGIN = 0.75 * inch"

definition TITLE_FONT_SIZE :: int where
  "TITLE_FONT_SIZE = 28"

definition FOOTER_FONT_SIZE :: int where
  "FOOTER_FONT_SIZE = 10"

definition CELL_FONT_SIZE :: int where
  "CELL_FONT_SIZE = 11"

definition HEADER_GAP :: real where
  "HEADER_GAP = 0.35 * inch"

definition FOOTER_GAP :: real where
  "FOOTER_GAP = 0.30 * inch"

definition GRID_LINE_COLOR :: string where
  "GRID_LINE_COLOR = ''#222222''"

definition FREE_SPACE_BG :: string where
  "FREE_SPACE_BG = ''#FFF3CD''"

definition HEADER_COLOR :: string where
  "HEADER_COLOR = ''#1A1A2E''"

definition CELL_TEXT_COLOR :: string where
  "CELL_TEXT_COLOR = ''#1A1A2E''"

text \<open>
  The calls the program makes on the reportlab canvas, in the order made. \<open>Rect x y w h
  stroke fill\<close> is \<open>canvas.rect(x, y, w, h, stroke=.., fill=..)\<close>.
\<close>

datatype canvas_op =
    SetFont string int
  | SetFillColor string
  | SetStrokeColor string
  | SetLineWidth real
  | DrawCentredString real real string
  | Rect real real real real int int

section \<open>Text fit: \<open>_draw_cell_text\<close>\<close>

text \<open>
  \<open>textwrap.wrap\<close> and \<open>canvas.stringWidth\<close> are library code and are parameters:
  \<open>wrap text width\<close> is the list of lines and \<open>string_width line font size\<close> the
  measured width. \<open>textwrap.wrap\<close> raises \<open>ValueError\<close> for a width that is not
  positive.
\<close>

type_synonym wrapper = "string \<Rightarrow> int \<Rightarrow> string list"

type_synonym measurer = "string \<Rightarrow> string \<Rightarrow> int \<Rightarrow> real"

definition textwrap_wrap :: "wrapper \<Rightarrow> string \<Rightarrow> int \<Rightarrow> error + string list" where
  "textwrap_wrap wrap text width =
     (if width \<le> 0 then Inl ValueError else Inr (wrap text width))"

text \<open>Python's \<open>int(x)\<close> on a float truncates towards zero.\<close>

definition py_int :: "real \<Rightarrow> int" where
  "py_int x = (if 0 \<le> x then \<lfloor>x\<rfloor> else \<lceil>x\<rceil>)"

text \<open>The argument \<open>width=max(int(max_w / (size * 0.5)), 8)\<close> of both calls of \<open>textwrap.wrap\<close>.\<close>

definition wrap_width :: "real \<Rightarrow> int \<Rightarrow> int" where
  "wrap_width max_w fsize = max (py_int (max_w / (real_of_int fsize * 0.5))) 8"

text \<open>\<open>range(start, stop, -1)\<close>: \<open>start, start - 1, ...\<close> down to \<open>stop + 1\<close>.\<close>

definition py_range_down :: "int \<Rightarrow> int \<Rightarrow> int list" where
  "py_range_down start stop = rev [stop + 1..start]"

text \<open>What the search leaves in \<open>size\<close> (here \<open>fsize\<close>), \<open>wrapped\<close>, \<open>line_height\<close> and \<open>total_text_h\<close>.\<close>

record text_layout =
  fit_size :: int
  fit_wrapped :: "string list"
  fit_line_height :: real
  fit_total_text_h :: real

text \<open>
  The loop \<open>for line in wrapped\<close> that checks the width of each line; it stops at the
  first line that is too wide.
\<close>

fun lines_fit :: "measurer \<Rightarrow> string \<Rightarrow> int \<Rightarrow> real \<Rightarrow> string list \<Rightarrow> bool" where
  "lines_fit string_width font_name fsize max_w [] = True"
| "lines_fit string_width font_name fsize max_w (line # rest) =
     (if string_width line font_name fsize > max_w then False
      else lines_fit string_width font_name fsize max_w rest)"

text \<open>
  The loop \<open>for size in range(CELL_FONT_SIZE, 5, -1)\<close>. It returns the canvas calls made
  so far and \<open>Some\<close> layout when it left through \<open>break\<close>, \<open>None\<close> when the range
  ran out (the \<open>else\<close> branch of the \<open>for\<close> then runs).
\<close>

fun fit_loop ::
  "wrapper \<Rightarrow> measurer \<Rightarrow> string \<Rightarrow> string \<Rightarrow> real \<Rightarrow> real \<Rightarrow> int list \<Rightarrow>
   canvas_op list \<Rightarrow> error + (canvas_op list \<times> text_layout option)" where
  "fit_loop wrap string_width text font_name max_w max_h [] ops = Inr (ops, None)"
| "fit_loop wrap string_width text font_name max_w max_h (fsize # sizes) ops =
     (case textwrap_wrap wrap text (wrap_width max_w fsize) of
        Inl e \<Rightarrow> Inl e
      | Inr wrapped \<Rightarrow>
          (let line_height = real_of_int fsize * 1.2;
               total_text_h = real (length wrapped) * line_height
           in if total_text_h \<le> max_h \<and> lines_fit string_width font_name fsize max_w wrapped
              then Inr (ops @ [SetFont font_name fsize],
                        Some \<lparr>fit_size = fsize, fit_wrapped = wrapped,
                              fit_line_height = line_height, fit_total_text_h = total_text_h\<rparr>)
              else fit_loop wrap string_width text font_name max_w max_h sizes
                     (ops @ [SetFont font_name fsize])))"

text \<open>The search with its fallback: \<open>size = 6\<close> and the text wrapped again for that size.\<close>

definition text_fit ::
  "wrapper \<Rightarrow> measurer \<Rightarrow> string \<Rightarrow> string \<Rightarrow> real \<Rightarrow> real \<Rightarrow>
   error + (canvas_op list \<times> text_layout)" where
  "text_fit wrap string_width text font_name max_w max_h =
     (case fit_loop wrap string_width text font_name max_w max_h
             (py_range_down CELL_FONT_SIZE 5) [] of
        Inl e \<Rightarrow> Inl e
      | Inr (ops, Some layout) \<Rightarrow> Inr (ops, layout)
      | Inr (ops, None) \<Rightarrow>
          (case textwrap_wrap wrap text (wrap_width max_w 6) of
             Inl e \<Rightarrow> Inl e
           | Inr wrapped \<Rightarrow>
               Inr (ops, \<lparr>fit_size = 6, fit_wrapped = wrapped,
                          fit_line_height = real_of_int 6 * 1.2,
                          fit_total_text_h = real (length wrapped) * (real_of_int 6 * 1.2)\<rparr>)))"

definition draw_cell_text ::
  "wrapper \<Rightarrow> measurer \<Rightarrow> string \<Rightarrow> real \<Rightarrow> real \<Rightarrow> real \<Rightarrow> real \<Rightarrow> bool \<Rightarrow>
   error + canvas_op list" where
  "draw_cell_text wrap string_width text x y w h isfree =
     (let padding = 4;
          max_w = w - 2 * padding;
          max_h = h - 2 * padding;
          font_name = (if isfree then ''Helvetica-Bold'' else ''Helvetica'')
      in case text_fit wrap string_width text font_name max_w max_h of
           Inl e \<Rightarrow> Inl e
         | Inr (ops, layout) \<Rightarrow>
             (let fsize = fit_size layout;
                  line_height = fit_line_height layout;
                  total_text_h = fit_total_text_h layout;
                  start_y = y + h / 2 + total_text_h / 2 - line_height
                              + (line_height - real_of_int fsize) / 2
              in Inr (ops @ [SetFillColor CELL_TEXT_COLOR, SetFont font_name fsize]
                        @ map (\<lambda>(i, line).
                                 DrawCentredString (x + w / 2) (start_y - real i * line_height) line)
                              (enumerate 0 (fit_wrapped layout)))))"

text \<open>
  The two tests of the loop body, by font size: the block of wrapped lines is no higher than
  \<open>max_h\<close>, and no wrapped line measures wider than \<open>max_w\<close>.
\<close>

definition fits_at ::
  "wrapper \<Rightarrow> measurer \<Rightarrow> string \<Rightarrow> string \<Rightarrow> real \<Rightarrow> real \<Rightarrow> int \<Rightarrow> bool" where
  "fits_at wrap string_width text font_name max_w max_h fsize \<longleftrightarrow>
     real (length (wrap text (wrap_width max_w fsize))) * (real_of_int fsize * 1.2) \<le> max_h
     \<and> list_all (\<lambda>line. string_width line font_name fsize \<le> max_w)
          (wrap text (wrap_width max_w fsize))"

text \<open>The layout the routine records for a font size.\<close>

definition layout_at :: "wrapper \<Rightarrow> string \<Rightarrow> real \<Rightarrow> int \<Rightarrow> text_layout" where
  "layout_at wrap text max_w fsize =
     \<lparr>fit_size = fsize, fit_wrapped = wrap text (wrap_width max_w fsize),
      fit_line_height = real_of_int fsize * 1.2,
      fit_total_text_h = real (length (wrap text (wrap_width max_w fsize))) * (real_of_int fsize * 1.2)\<rparr>"

text \<open>
  Concrete collaborators for examples. \<open>token_wrap\<close> is what \<open>textwrap.wrap\<close> returns
  for a text that is one token without whitespace or hyphen: the token cut into pieces of
  \<open>width\<close> characters. \<open>helvetica_width\<close> measures as \<open>stringWidth\<close> does in
  Helvetica for the letters \<open>W\<close> (944 thousandths of the font size) and \<open>i\<close> (222);
  the examples use no other character.
\<close>

fun chunks :: "nat \<Rightarrow> string \<Rightarrow> string \<Rightarrow> string list" where
  "chunks n cur [] = (if cur = [] then [] else [cur])"
| "chunks n cur (c # cs) =
     (if length cur = n then cur # chunks n [c] cs else chunks n (cur @ [c]) cs)"

definition token_wrap :: wrapper where
  "token_wrap text width = chunks (nat width) [] text"

definition helvetica_width :: measurer where
  "helvetica_width line font_name fsize =
     real_of_int (sum_list (map (\<lambda>c. if c = CHR ''W'' then 944 else if c = CHR ''i'' then 222 else 556) line))
       * real_of_int fsize / 1000"

section \<open>The sampler's loops\<close>

lemma py_range_length: "length (py_range n) = nat n"
  by (simp add: py_range_def)

lemma row_loop_append:
  "row_loop ch u ft rows cols r (cs1 @ cs2) row idx =
     (case row_loop ch u ft rows cols r cs1 row idx of
        Inl e \<Rightarrow> Inl e
      | Inr (row', idx') \<Rightarrow> row_loop ch u ft rows cols r cs2 row' idx')"
  by (induction cs1 arbitrary: row idx) auto

lemma take_Suc_drop:
  "idx < length xs \<Longrightarrow> xs ! idx # take n (drop (Suc idx) xs) = take (Suc n) (drop idx xs)"
  by (simp add: Cons_nth_drop_Suc [symmetric])

lemma row_loop_plain:
  assumes "\<forall>c \<in> set cs. \<not> is_free u rows cols r c"
    and "idx + length cs \<le> length ch"
  shows "row_loop ch u ft rows cols r cs row idx =
           Inr (row @ take (length cs) (drop idx ch), idx + length cs)"
  using assms
proof (induction cs arbitrary: row idx)
  case Nil
  then show ?case by simp
next
  case (Cons c cs)
  from Cons.prems have lt: "idx < length ch" by simp
  from Cons.prems have nf: "\<not> is_free u rows cols r c"
    by simp
  have "row_loop ch u ft rows cols r (c # cs) row idx =
          row_loop ch u ft rows cols r cs (row @ [ch ! idx]) (idx + 1)"
    using lt nf by auto
  also have "\<dots> = Inr ((row @ [ch ! idx]) @ take (length cs) (drop (idx + 1) ch), (idx + 1) + length cs)"
    using Cons.prems by (intro Cons.IH) auto
  finally show ?case using lt by (simp add: take_Suc_drop)
qed

lemma py_range_split:
  assumes "0 \<le> k" "k < n"
  shows "py_range n = py_range k @ [k] @ map int [Suc (nat k)..<nat n]"
proof -
  have "[0..<nat n] = [0..<nat k] @ [nat k..<nat n]"
    using assms by (metis le_add_diff_inverse nat_mono less_imp_le upt_add_eq_append zero_le)
  moreover have "[nat k..<nat n] = nat k # [Suc (nat k)..<nat n]"
    using assms by (simp add: upt_conv_Cons)
  ultimately show ?thesis using assms by (simp add: py_range_def)
qed

lemma row_loop_center:
  assumes app: "u" "rows mod 2 = 1" "cols mod 2 = 1" "1 \<le> cols"
    and idx: "int idx + cols - 1 \<le> int (length ch)"
  shows "row_loop ch u ft rows cols (rows div 2) (py_range cols) row idx =
           Inr (row @ take (nat (cols div 2)) (drop idx ch) @ [ft]
                  @ take (nat cols - 1 - nat (cols div 2)) (drop (idx + nat (cols div 2)) ch),
                idx + (nat cols - 1))"
proof -
  let ?k = "cols div 2"
  have k: "0 \<le> ?k" "?k < cols" using app by auto
  have fr: "is_free u rows cols (rows div 2) ?k" using app by (simp add: is_free_def)
  have pre: "\<forall>c \<in> set (py_range ?k). \<not> is_free u rows cols (rows div 2) c"
    by (auto simp: py_range_def is_free_def)
  have post: "\<forall>c \<in> set (map int [Suc (nat ?k)..<nat cols]). \<not> is_free u rows cols (rows div 2) c"
    using k by (auto simp: is_free_def)
  have l1: "idx + length (py_range ?k) \<le> length ch"
    using idx k by (simp add: py_range_def)
  have l2: "idx + nat ?k + length (map int [Suc (nat ?k)..<nat cols]) \<le> length ch"
    using idx k by auto
  have len2: "length (map int [Suc (nat ?k)..<nat cols]) = nat cols - 1 - nat ?k"
    by simp
  have sp: "py_range cols = py_range ?k @ [?k] @ map int [Suc (nat ?k)..<nat cols]"
    by (rule py_range_split [OF k])
  have s1: "row_loop ch u ft rows cols (rows div 2) (py_range ?k) row idx =
              Inr (row @ take (nat ?k) (drop idx ch), idx + nat ?k)"
    using row_loop_plain [OF pre l1] by (simp add: py_range_length)
  have s2: "row_loop ch u ft rows cols (rows div 2) [?k] rw i = Inr (rw @ [ft], i)" for rw i
    using fr by simp
  have s3: "row_loop ch u ft rows cols (rows div 2) (map int [Suc (nat ?k)..<nat cols]) rw (idx + nat ?k) =
              Inr (rw @ take (nat cols - 1 - nat ?k) (drop (idx + nat ?k) ch),
                   idx + nat ?k + (nat cols - 1 - nat ?k))" for rw
    using row_loop_plain [OF post l2] by (simp only: len2)
  have e: "idx + nat ?k + (nat cols - 1 - nat ?k) = idx + (nat cols - 1)"
    using k by auto
  show ?thesis
    unfolding sp by (simp only: row_loop_append s1 s2 s3 sum.case prod.case e append_assoc)
qed

lemma row_loop_other:
  assumes "\<not> (u \<and> rows mod 2 = 1 \<and> cols mod 2 = 1 \<and> r = rows div 2)"
    and "idx + nat cols \<le> length ch"
  shows "row_loop ch u ft rows cols r (py_range cols) row idx =
           Inr (row @ take (nat cols) (drop idx ch), idx + nat cols)"
proof -
  have "\<forall>c \<in> set (py_range cols). \<not> is_free u rows cols r c"
    using assms(1) by (auto simp: is_free_def)
  from row_loop_plain [OF this, of idx ch ft row] assms(2) show ?thesis
    by (simp add: py_range_length)
qed


lemma card_loop_append:
  "card_loop ch u ft rows cols (rs1 @ rs2) bc idx =
     (case card_loop ch u ft rows cols rs1 bc idx of
        Inl e \<Rightarrow> Inl e
      | Inr (bc', idx') \<Rightarrow> card_loop ch u ft rows cols rs2 bc' idx')"
  by (induction rs1 arbitrary: bc idx) (auto split: sum.splits)

lemma card_loop_plain:
  assumes "\<forall>r \<in> set rs. \<not> (u \<and> rows mod 2 = 1 \<and> cols mod 2 = 1 \<and> r = rows div 2)"
    and "idx + length rs * nat cols \<le> length ch"
  shows "\<exists>bc'. card_loop ch u ft rows cols rs bc idx = Inr (bc', idx + length rs * nat cols)
           \<and> length bc' = length bc + length rs
           \<and> concat bc' = concat bc @ take (length rs * nat cols) (drop idx ch)
           \<and> (\<forall>row \<in> set bc'. row \<in> set bc \<or> length row = nat cols)"
  using assms
proof (induction rs arbitrary: bc idx)
  case Nil
  then show ?case by simp
next
  case (Cons r rs)
  let ?n = "nat cols"
  from Cons.prems have nf: "\<not> (u \<and> rows mod 2 = 1 \<and> cols mod 2 = 1 \<and> r = rows div 2)"
    by auto
  from Cons.prems have le1: "idx + ?n \<le> length ch" by simp
  have row: "row_loop ch u ft rows cols r (py_range cols) [] idx =
               Inr (take ?n (drop idx ch), idx + ?n)"
    using row_loop_other [OF nf le1, of ft "[]"] by simp
  have le2: "(idx + ?n) + length rs * ?n \<le> length ch"
    using Cons.prems by simp
  from Cons.prems have nfs: "\<forall>r \<in> set rs. \<not> (u \<and> rows mod 2 = 1 \<and> cols mod 2 = 1 \<and> r = rows div 2)"
    by auto
  from Cons.IH [OF nfs le2, of "bc @ [take ?n (drop idx ch)]"]
  obtain bc' where
    run: "card_loop ch u ft rows cols rs (bc @ [take ?n (drop idx ch)]) (idx + ?n) =
            Inr (bc', idx + ?n + length rs * ?n)"
    and len: "length bc' = length (bc @ [take ?n (drop idx ch)]) + length rs"
    and cat: "concat bc' = concat (bc @ [take ?n (drop idx ch)])
                @ take (length rs * ?n) (drop (idx + ?n) ch)"
    and shp: "\<forall>row \<in> set bc'. row \<in> set (bc @ [take ?n (drop idx ch)]) \<or> length row = ?n"
    by blast
  have tk: "take ?n (drop idx ch) @ take (length rs * ?n) (drop (idx + ?n) ch)
              = take (length (r # rs) * ?n) (drop idx ch)"
    by (simp add: take_add add.commute)
  have "card_loop ch u ft rows cols (r # rs) bc idx = Inr (bc', idx + length (r # rs) * ?n)"
    using row run by (simp add: add.assoc)
  moreover have "length bc' = length bc + length (r # rs)" using len by simp
  moreover have "concat bc' = concat bc @ take (length (r # rs) * ?n) (drop idx ch)"
    using cat tk by simp
  moreover have "\<forall>row \<in> set bc'. row \<in> set bc \<or> length row = ?n"
    using shp le1 by auto
  ultimately show ?case by blast
qed


lemma tail_bound:
  fixes L T A n P k :: nat
  shows "L = T - 1 \<Longrightarrow> T = A + n + P \<Longrightarrow> k < n \<Longrightarrow> L - (A + k) \<le> (n - 1 - k) + P"
  by arith

lemma card_loop_center:
  assumes app: "u" "rows mod 2 = 1" "cols mod 2 = 1" "1 \<le> cols"
    and idx: "int idx + cols - 1 \<le> int (length ch)"
  shows "\<exists>row. card_loop ch u ft rows cols [rows div 2] bc idx = Inr (bc @ [row], idx + (nat cols - 1))
           \<and> length row = nat cols
           \<and> row = take (nat (cols div 2)) (drop idx ch) @ [ft]
                  @ take (nat cols - 1 - nat (cols div 2)) (drop (idx + nat (cols div 2)) ch)"
proof -
  let ?row = "take (nat (cols div 2)) (drop idx ch) @ [ft]
                @ take (nat cols - 1 - nat (cols div 2)) (drop (idx + nat (cols div 2)) ch)"
  have k: "0 \<le> cols div 2" "cols div 2 < cols" using app by auto
  have "card_loop ch u ft rows cols [rows div 2] bc idx = Inr (bc @ [?row], idx + (nat cols - 1))"
    using row_loop_center [OF app idx, of ft "[]"] by simp
  moreover have "length ?row = nat cols"
    using idx k by auto
  ultimately show ?thesis by blast
qed

lemma generate_card_core:
  assumes rows: "1 \<le> rows" and cols: "1 \<le> cols"
    and picks: "valid_picks picks (length items) (cells_needed rows cols u)"
  shows "\<exists>bc. generate_card picks items rows cols u ft = Inr bc
           \<and> length bc = nat rows
           \<and> (\<forall>row \<in> set bc. length row = nat cols)
           \<and> concat bc =
               (if u \<and> rows mod 2 = 1 \<and> cols mod 2 = 1
                then take (nat (rows div 2 * cols + cols div 2)) (map (\<lambda>i. items ! i) picks)
                       @ [ft]
                       @ drop (nat (rows div 2 * cols + cols div 2)) (map (\<lambda>i. items ! i) picks)
                else map (\<lambda>i. items ! i) picks)"
proof -
  let ?ch = "map (\<lambda>i. items ! i) picks"
  let ?n = "nat cols"
  let ?k = "cells_needed rows cols u"
  have len: "int (length picks) = ?k" and dist: "distinct picks"
    and bound: "\<forall>i \<in> set picks. i < length items"
    using picks by (auto simp: valid_picks_def)
  have "card (set picks) \<le> card {..<length items}"
    using bound by (intro card_mono) auto
  then have "length picks \<le> length items"
    using dist by (simp add: distinct_card)
  then have smp: "random_sample picks items ?k = Inr ?ch"
    using len by (simp add: random_sample_def)
  have total: "nat (rows * cols) = nat rows * ?n"
    using rows by (simp add: nat_mult_distrib)
  show ?thesis
  proof (cases "u \<and> rows mod 2 = 1 \<and> cols mod 2 = 1")
    case False
    then have nf: "\<forall>r \<in> set (py_range rows). \<not> (u \<and> rows mod 2 = 1 \<and> cols mod 2 = 1 \<and> r = rows div 2)"
      by auto
    have lch: "length ?ch = nat rows * ?n"
      using len False total by (auto simp: cells_needed_def)
    then have le: "0 + length (py_range rows) * ?n \<le> length ?ch"
      by (simp add: py_range_length)
    from card_loop_plain [OF nf le, of ft "[]"]
    obtain bc where run: "card_loop ?ch u ft rows cols (py_range rows) [] 0 = Inr (bc, nat rows * ?n)"
      and l: "length bc = nat rows"
      and c: "concat bc = take (nat rows * ?n) ?ch"
      and s: "\<forall>row \<in> set bc. length row = ?n"
      by (auto simp: py_range_length)
    have "generate_card picks items rows cols u ft = Inr bc"
      using smp run by (simp add: generate_card_def)
    moreover have "concat bc = ?ch" using c lch by simp
    ultimately show ?thesis using False l s by auto
  next
    case True
    then have app: "u" "rows mod 2 = 1" "cols mod 2 = 1" by auto
    let ?kr = "rows div 2"
    let ?kc = "cols div 2"
    let ?post = "map int [Suc (nat ?kr)..<nat rows]"
    have kr: "0 \<le> ?kr" "?kr < rows" using rows by auto
    have kc: "0 \<le> ?kc" "?kc < cols" using cols by auto
    have lch: "length ?ch = nat rows * ?n - 1"
      using len True total by (auto simp: cells_needed_def)
    have pos: "0 < nat rows * ?n" using rows cols by simp
    have sp: "py_range rows = py_range ?kr @ [?kr] @ ?post"
      by (rule py_range_split [OF kr])
    have rws: "nat rows = nat ?kr + 1 + length ?post"
      using kr by auto
    have tot2: "nat rows * ?n = nat ?kr * ?n + ?n + length ?post * ?n"
      by (subst rws) (simp add: algebra_simps)
    have n1: "1 \<le> ?n" using cols by simp
    have nf1: "\<forall>r \<in> set (py_range ?kr). \<not> (u \<and> rows mod 2 = 1 \<and> cols mod 2 = 1 \<and> r = rows div 2)"
      by (auto simp: py_range_def)
    have nf3: "\<forall>r \<in> set ?post. \<not> (u \<and> rows mod 2 = 1 \<and> cols mod 2 = 1 \<and> r = rows div 2)"
      using kr by auto
    let ?i1 = "nat ?kr * ?n"
    let ?i2 = "?i1 + (?n - 1)"
    have lpr: "length (py_range ?kr) = nat ?kr" by (rule py_range_length)
    have cn: "cols = int ?n" using cols by simp
    have le1: "0 + length (py_range ?kr) * ?n \<le> length ?ch"
      unfolding lpr using lch tot2 n1 by linarith
    have "int ?i1 + int ?n - 1 \<le> int (length ?ch)"
      using lch tot2 n1 by linarith
    then have le2: "int ?i1 + cols - 1 \<le> int (length ?ch)"
      using cn by simp
    have le3: "?i2 + length ?post * ?n \<le> length ?ch"
      using lch tot2 n1 by linarith
    from card_loop_plain [OF nf1 le1, of ft "[]"]
    obtain bc1 where run1: "card_loop ?ch u ft rows cols (py_range ?kr) [] 0 = Inr (bc1, ?i1)"
      and l1: "length bc1 = nat ?kr"
      and c1: "concat bc1 = take ?i1 ?ch"
      and s1: "\<forall>row \<in> set bc1. length row = ?n"
      by (auto simp: py_range_length)
    from card_loop_center [OF app cols le2, of ft bc1]
    obtain row where run2: "card_loop ?ch u ft rows cols [?kr] bc1 ?i1 = Inr (bc1 @ [row], ?i2)"
      and lrow: "length row = ?n"
      and row: "row = take (nat ?kc) (drop ?i1 ?ch) @ [ft]
                  @ take (?n - 1 - nat ?kc) (drop (?i1 + nat ?kc) ?ch)"
      by blast
    from card_loop_plain [OF nf3 le3, of ft "bc1 @ [row]"]
    obtain bc where run3: "card_loop ?ch u ft rows cols ?post (bc1 @ [row]) ?i2 = Inr (bc, ?i2 + length ?post * ?n)"
      and l3: "length bc = length (bc1 @ [row]) + length ?post"
      and c3: "concat bc = concat (bc1 @ [row]) @ take (length ?post * ?n) (drop ?i2 ?ch)"
      and s3: "\<forall>r \<in> set bc. r \<in> set (bc1 @ [row]) \<or> length r = ?n"
      by blast
    have run: "card_loop ?ch u ft rows cols (py_range rows) [] 0 = Inr (bc, ?i2 + length ?post * ?n)"
      unfolding sp by (simp only: card_loop_append run1 run2 run3 sum.case prod.case)
    have gen: "generate_card picks items rows cols u ft = Inr bc"
      using smp run by (simp add: generate_card_def)
    have lbc: "length bc = nat rows" using l3 l1 rws by simp
    have shp: "\<forall>r \<in> set bc. length r = ?n" using s3 s1 lrow by auto
    let ?m = "nat (?kr * cols + ?kc)"
    have m: "?m = ?i1 + nat ?kc"
      using kr kc cols by (simp add: nat_add_distrib nat_mult_distrib)
    have a: "take ?i1 ?ch @ take (nat ?kc) (drop ?i1 ?ch) = take ?m ?ch"
      unfolding m by (simp only: take_add)
    have kcn: "nat ?kc < ?n" using kc by linarith
    have "?i2 = (?i1 + nat ?kc) + (?n - 1 - nat ?kc)"
      using kcn by linarith
    then have i2: "?i2 = ?m + (?n - 1 - nat ?kc)"
      by (simp only: m)
    have b: "take (?n - 1 - nat ?kc) (drop ?m ?ch) @ take (length ?post * ?n) (drop ?i2 ?ch)
               = take ((?n - 1 - nat ?kc) + length ?post * ?n) (drop ?m ?ch)"
      unfolding i2 by (simp add: take_add add.commute)
    have "length ?ch - (?i1 + nat ?kc) \<le> (?n - 1 - nat ?kc) + length ?post * ?n"
      by (rule tail_bound [OF lch tot2 kcn])
    then have "length ?ch - ?m \<le> (?n - 1 - nat ?kc) + length ?post * ?n"
      by (simp only: m)
    then have "length (drop ?m ?ch) \<le> (?n - 1 - nat ?kc) + length ?post * ?n"
      by simp
    then have b': "take ((?n - 1 - nat ?kc) + length ?post * ?n) (drop ?m ?ch) = drop ?m ?ch"
      by (rule take_all)
    have "concat bc = (take ?i1 ?ch @ take (nat ?kc) (drop ?i1 ?ch)) @ [ft]
                        @ (take (?n - 1 - nat ?kc) (drop ?m ?ch) @ take (length ?post * ?n) (drop ?i2 ?ch))"
      using c3 c1 row by (simp only: concat_append concat.simps append_Nil2 m append_assoc)
    then have "concat bc = take ?m ?ch @ [ft] @ drop ?m ?ch"
      by (simp only: a b b')
    then show ?thesis using True gen lbc shp by auto
  qed
qed

section \<open>Lists laid out as grids\<close>

lemma concat_nth_uniform:
  "\<forall>row \<in> set xss. length row = n \<Longrightarrow> r < length xss \<Longrightarrow> c < n \<Longrightarrow>
     concat xss ! (r * n + c) = xss ! r ! c"
proof (induction xss arbitrary: r)
  case Nil
  then show ?case by simp
next
  case (Cons xs xss)
  show ?case
  proof (cases r)
    case 0
    then show ?thesis using Cons.prems by (simp add: nth_append)
  next
    case (Suc r')
    have "concat (xs # xss) ! (r * n + c) = concat xss ! (r' * n + c)"
      using Cons.prems Suc by (simp add: nth_append)
    also have "\<dots> = xss ! r' ! c"
      using Cons.prems Suc by (intro Cons.IH) auto
    finally show ?thesis using Suc by simp
  qed
qed

lemma uniform_concat_inj:
  "length xss = length yss \<Longrightarrow> \<forall>row \<in> set xss. length row = n \<Longrightarrow>
     \<forall>row \<in> set yss. length row = n \<Longrightarrow> concat xss = concat yss \<Longrightarrow> xss = yss"
proof (induction xss arbitrary: yss)
  case Nil
  then show ?case by simp
next
  case (Cons xs xss)
  then obtain ys yss' where yss: "yss = ys # yss'" by (cases yss) auto
  with Cons.prems have "length xs = length ys" by simp
  with Cons.prems yss have "xs = ys" "concat xss = concat yss'" by auto
  moreover have "xss = yss'"
    using Cons.prems yss \<open>concat xss = concat yss'\<close> by (intro Cons.IH) auto
  ultimately show ?case using yss by simp
qed

lemma chosen_subset:
  "\<forall>i \<in> set picks. i < length items \<Longrightarrow> set (map (\<lambda>i. items ! i) picks) \<subseteq> set items"
  by auto

lemma chosen_distinct:
  assumes "distinct items" "distinct picks" "\<forall>i \<in> set picks. i < length items"
  shows "distinct (map (\<lambda>i. items ! i) picks)"
proof -
  have "inj_on (\<lambda>i. items ! i) (set picks)"
    using assms by (auto simp: inj_on_def nth_eq_iff_index_eq)
  then show ?thesis using assms(2) by (simp add: distinct_map)
qed

lemma index_unique:
  fixes r c r' c' n :: nat
  assumes "c < n" "c' < n" "r * n + c = r' * n + c'"
  shows "r = r' \<and> c = c'"
proof -
  have "(r * n + c) div n = (r' * n + c') div n" using assms(3) by (rule arg_cong)
  then have "r = r'" using assms(1,2) by simp
  then show ?thesis using assms(3) by simp
qed

lemma insert_nth_before:
  assumes "p < m" "m \<le> length ch"
  shows "(take m ch @ [x] @ drop m ch) ! p = ch ! p"
proof -
  have "length (take m ch) = m" using assms(2) by simp
  then have "(take m ch @ [x] @ drop m ch) ! p = take m ch ! p"
    using assms(1) by (simp only: nth_append if_True)
  then show ?thesis using assms(1) by simp
qed

lemma insert_nth_after:
  assumes "m + Suc d \<le> length ch"
  shows "(take m ch @ [x] @ drop m ch) ! (m + Suc d) = ch ! (m + d)"
proof -
  have lm: "length (take m ch) = m" using assms by simp
  have "(take m ch @ [x] @ drop m ch) ! (length (take m ch) + Suc d) = ([x] @ drop m ch) ! (Suc d)"
    by (rule nth_append_length_plus)
  then have "(take m ch @ [x] @ drop m ch) ! (m + Suc d) = ([x] @ drop m ch) ! (Suc d)"
    by (simp only: lm)
  also have "\<dots> = drop m ch ! d" by simp
  also have "\<dots> = ch ! (m + d)" using assms by simp
  finally show ?thesis .
qed

lemma insert_nth_other:
  assumes "p \<noteq> m" "p \<le> length ch" "m \<le> length ch"
  shows "(take m ch @ [x] @ drop m ch) ! p \<in> set ch"
proof (cases "p < m")
  case True
  then have "(take m ch @ [x] @ drop m ch) ! p = ch ! p"
    using assms(3) by (rule insert_nth_before)
  moreover have "p < length ch" using True assms(3) by simp
  ultimately show ?thesis by simp
next
  case False
  with assms(1) have "m < p" by simp
  then have d: "p = m + Suc (p - m - 1)" by simp
  have "m + Suc (p - m - 1) \<le> length ch" using assms(2) d by simp
  then have "(take m ch @ [x] @ drop m ch) ! (m + Suc (p - m - 1)) = ch ! (m + (p - m - 1))"
    by (rule insert_nth_after)
  then have "(take m ch @ [x] @ drop m ch) ! p = ch ! (m + (p - m - 1))"
    using d by simp
  moreover have "m + (p - m - 1) < length ch" using assms(2) \<open>m < p\<close> by simp
  ultimately show ?thesis by simp
qed

lemma cell_index_bound:
  fixes r c n R :: nat
  assumes "r < R" "c < n"
  shows "r * n + c < R * n"
proof -
  have "r * n + c < Suc r * n" using assms(2) by simp
  also have "\<dots> \<le> R * n" using assms(1) by (intro mult_le_mono1) simp
  finally show ?thesis .
qed

lemma center_index:
  assumes "1 \<le> rows" "1 \<le> cols"
  shows "nat (rows div 2 * cols + cols div 2) = nat (rows div 2) * nat cols + nat (cols div 2)"
    and "nat (rows div 2) < nat rows" and "nat (cols div 2) < nat cols"
  using assms by (simp_all add: nat_add_distrib nat_mult_distrib)

section \<open>The font-size search\<close>

lemma wrap_width_ge: "8 \<le> wrap_width max_w fsize"
  by (simp add: wrap_width_def)

lemma textwrap_wrap_ok:
  "textwrap_wrap wrap text (wrap_width max_w fsize) = Inr (wrap text (wrap_width max_w fsize))"
  using wrap_width_ge [of max_w fsize] by (simp add: textwrap_wrap_def)

lemma lines_fit_iff:
  "lines_fit string_width font_name fsize max_w ls
     \<longleftrightarrow> list_all (\<lambda>line. string_width line font_name fsize \<le> max_w) ls"
  by (induction ls) auto

lemma font_sizes: "py_range_down CELL_FONT_SIZE 5 = [11, 10, 9, 8, 7, 6]"
  by (simp add: py_range_down_def CELL_FONT_SIZE_def upto_rec1)

lemma fit_loop_find:
  "fit_loop wrap sw text font mw mh xs ops =
     Inr (case List.find (fits_at wrap sw text font mw mh) xs of
            None \<Rightarrow> (ops @ map (SetFont font) xs, None)
          | Some s \<Rightarrow>
              (ops @ map (SetFont font) (takeWhile (\<lambda>s. \<not> fits_at wrap sw text font mw mh s) xs @ [s]),
               Some (layout_at wrap text mw s)))"
proof (induction xs arbitrary: ops)
  case Nil
  then show ?case by simp
next
  case (Cons x xs)
  show ?case
  proof (cases "fits_at wrap sw text font mw mh x")
    case True
    then show ?thesis
      by (simp add: textwrap_wrap_ok fits_at_def lines_fit_iff layout_at_def Let_def)
  next
    case False
    then have "fit_loop wrap sw text font mw mh (x # xs) ops =
                 fit_loop wrap sw text font mw mh xs (ops @ [SetFont font x])"
      by (auto simp add: textwrap_wrap_ok fits_at_def lines_fit_iff Let_def)
    then show ?thesis using False by (simp add: Cons.IH split: option.splits)
  qed
qed

lemma text_fit_find:
  "\<exists>ops. text_fit wrap sw text font mw mh =
     Inr (ops, case List.find (fits_at wrap sw text font mw mh) (py_range_down CELL_FONT_SIZE 5) of
                 None \<Rightarrow> layout_at wrap text mw 6
               | Some s \<Rightarrow> layout_at wrap text mw s)"
  by (simp add: text_fit_def fit_loop_find textwrap_wrap_ok layout_at_def split: option.splits)

lemma find_first_is_largest:
  fixes xs :: "int list"
  assumes "sorted_wrt (\<lambda>a b. b < a) xs" "List.find P xs = Some s"
  shows "P s \<and> s \<in> set xs \<and> (\<forall>t \<in> set xs. P t \<longrightarrow> t \<le> s)"
  using assms
proof (induction xs)
  case Nil
  then show ?case by simp
next
  case (Cons x xs)
  show ?case
  proof (cases "P x")
    case True
    with Cons.prems have "s = x" by simp
    moreover have "\<forall>t \<in> set xs. t < x" using Cons.prems(1) by simp
    ultimately show ?thesis using True by auto
  next
    case False
    with Cons.prems have "List.find P xs = Some s" "sorted_wrt (\<lambda>a b. b < a) xs" by simp_all
    with Cons.IH have "P s \<and> s \<in> set xs \<and> (\<forall>t \<in> set xs. P t \<longrightarrow> t \<le> s)" by blast
    then show ?thesis using False by auto
  qed
qed

lemma font_sizes_descending: "sorted_wrt (\<lambda>a b. b < a) (py_range_down CELL_FONT_SIZE 5)"
  by (simp add: font_sizes)

lemma text_fit_cases:
  obtains (found) ops s where
      "text_fit wrap sw text font mw mh = Inr (ops, layout_at wrap text mw s)"
      "fits_at wrap sw text font mw mh s"
      "s \<in> set (py_range_down CELL_FONT_SIZE 5)"
      "\<forall>t \<in> set (py_range_down CELL_FONT_SIZE 5). fits_at wrap sw text font mw mh t \<longrightarrow> t \<le> s"
  | (fallback) ops where
      "text_fit wrap sw text font mw mh = Inr (ops, layout_at wrap text mw 6)"
      "\<forall>t \<in> set (py_range_down CELL_FONT_SIZE 5). \<not> fits_at wrap sw text font mw mh t"
proof (cases "List.find (fits_at wrap sw text font mw mh) (py_range_down CELL_FONT_SIZE 5)")
  case None
  then have "\<forall>t \<in> set (py_range_down CELL_FONT_SIZE 5). \<not> fits_at wrap sw text font mw mh t"
    by (simp add: find_None_iff)
  moreover obtain ops where "text_fit wrap sw text font mw mh = Inr (ops, layout_at wrap text mw 6)"
    using text_fit_find [of wrap sw "text" font mw mh] None by auto
  ultimately show ?thesis by (rule fallback [rotated])
next
  case (Some s)
  obtain ops where "text_fit wrap sw text font mw mh = Inr (ops, layout_at wrap text mw s)"
    using text_fit_find [of wrap sw "text" font mw mh] Some by auto
  moreover from find_first_is_largest [OF font_sizes_descending Some]
  have "fits_at wrap sw text font mw mh s" "s \<in> set (py_range_down CELL_FONT_SIZE 5)"
    "\<forall>t \<in> set (py_range_down CELL_FONT_SIZE 5). fits_at wrap sw text font mw mh t \<longrightarrow> t \<le> s"
    by blast+
  ultimately show ?thesis by (rule found)
qed

lemma layout_at_size: "fit_size (layout_at wrap text mw s) = s"
  by (simp add: layout_at_def)

lemma text_fit_size_bounds:
  "\<exists>ops layout. text_fit wrap sw t font mw mh = Inr (ops, layout)
     \<and> 6 \<le> fit_size layout \<and> fit_size layout \<le> 11"
proof (cases rule: text_fit_cases [of wrap sw t font mw mh])
  case (found ops s)
  from found(3) have "6 \<le> s \<and> s \<le> 11" by (auto simp: font_sizes)
  then show ?thesis using found(1) by (auto simp: layout_at_size)
next
  case (fallback ops)
  then show ?thesis by (auto simp: layout_at_size)
qed

lemma wrap_width_50: "wrap_width 50 11 = 9" "wrap_width 50 10 = 10" "wrap_width 50 9 = 11"
  "wrap_width 50 8 = 12" "wrap_width 50 7 = 14" "wrap_width 50 6 = 16"
  by (simp_all add: wrap_width_def py_int_def)

lemma wrap_width_32: "wrap_width 32 11 = 8" "wrap_width 32 10 = 8" "wrap_width 32 9 = 8"
  "wrap_width 32 8 = 8" "wrap_width 32 7 = 9" "wrap_width 32 6 = 10"
  by (simp_all add: wrap_width_def py_int_def)

section \<open>Claims about the card sampler\<close>

text \<open>
  Claim C1. For \<open>rows \<ge> 1\<close>, \<open>cols \<ge> 1\<close> and every draw of
  \<open>cells_needed\<close> pairwise different pool positions (such a draw exists exactly when
  the pool has at least \<open>cells_needed\<close> items), \<open>generate_card\<close> returns a grid
  of \<open>rows\<close> rows, each of \<open>cols\<close> cells. Read row by row, the grid is the drawn
  list \<open>chosen\<close> in its order; when free space is on and both dimensions are odd, the
  free label stands at row-major position \<open>(rows div 2) * cols + cols div 2\<close>, the
  centre cell, and the drawn items continue after it. Every drawn item is an item of the
  pool.
\<close>

theorem generate_card_row_major:
  assumes "1 \<le> rows" and "1 \<le> cols"
    and "valid_picks picks (length items) (cells_needed rows cols use_free_space)"
  shows "\<exists>chosen bcard.
           random_sample picks items (cells_needed rows cols use_free_space) = Inr chosen
         \<and> generate_card picks items rows cols use_free_space free_space_text = Inr bcard
         \<and> int (length chosen) = cells_needed rows cols use_free_space
         \<and> set chosen \<subseteq> set items
         \<and> length bcard = nat rows
         \<and> list_all (\<lambda>row. length row = nat cols) bcard
         \<and> concat bcard =
              (if use_free_space \<and> rows mod 2 = 1 \<and> cols mod 2 = 1
                then take (nat (rows div 2 * cols + cols div 2)) chosen
                       @ [free_space_text]
                       @ drop (nat (rows div 2 * cols + cols div 2)) chosen
                else chosen)"
proof -
  let ?ch = "map (\<lambda>i. items ! i) picks"
  let ?k = "cells_needed rows cols use_free_space"
  have len: "int (length picks) = ?k" and dist: "distinct picks"
    and bound: "\<forall>i \<in> set picks. i < length items"
    using assms(3) by (auto simp: valid_picks_def)
  have "card (set picks) \<le> card {..<length items}"
    using bound by (intro card_mono) auto
  then have "length picks \<le> length items"
    using dist by (simp add: distinct_card)
  then have smp: "random_sample picks items ?k = Inr ?ch"
    using len by (simp add: random_sample_def)
  have sub: "set ?ch \<subseteq> set items" using bound by (rule chosen_subset)
  from generate_card_core [OF assms, of free_space_text]
  obtain bc where "generate_card picks items rows cols use_free_space free_space_text = Inr bc"
    and "length bc = nat rows"
    and "\<forall>row \<in> set bc. length row = nat cols"
    and "concat bc =
           (if use_free_space \<and> rows mod 2 = 1 \<and> cols mod 2 = 1
            then take (nat (rows div 2 * cols + cols div 2)) ?ch @ [free_space_text]
                   @ drop (nat (rows div 2 * cols + cols div 2)) ?ch
            else ?ch)"
    by blast
  then show ?thesis using smp sub len
    by (intro exI [of _ ?ch] exI [of _ bc]) (simp add: list_all_iff)
qed

theorem generate_card_row_major_witness:
  "\<exists>chosen bcard.
     random_sample [7, 0, 3, 5, 1, 6, 2, 4]
       [''a'', ''b'', ''c'', ''d'', ''e'', ''f'', ''g'', ''h'', ''i'']
       (cells_needed 3 3 True) = Inr chosen
   \<and> generate_card [7, 0, 3, 5, 1, 6, 2, 4]
       [''a'', ''b'', ''c'', ''d'', ''e'', ''f'', ''g'', ''h'', ''i'']
       3 3 True ''FREE'' = Inr bcard
   \<and> chosen = [''h'', ''a'', ''d'', ''f'', ''b'', ''g'', ''c'', ''e'']
   \<and> length bcard = 3
   \<and> concat bcard = [''h'', ''a'', ''d'', ''f'', ''FREE'', ''b'', ''g'', ''c'', ''e'']"
proof -
  have h: "valid_picks [7, 0, 3, 5, 1, 6, 2, 4]
             (length [''a'', ''b'', ''c'', ''d'', ''e'', ''f'', ''g'', ''h'', ''i''])
             (cells_needed 3 3 True)"
    by (simp add: valid_picks_def cells_needed_def)
  have r: "(1::int) \<le> 3" by simp
  from generate_card_row_major [OF r r h, of "''FREE''"]
  obtain chosen bcard where
    a: "random_sample [7, 0, 3, 5, 1, 6, 2, 4]
         [''a'', ''b'', ''c'', ''d'', ''e'', ''f'', ''g'', ''h'', ''i'']
         (cells_needed 3 3 True) = Inr chosen"
    and b: "generate_card [7, 0, 3, 5, 1, 6, 2, 4]
         [''a'', ''b'', ''c'', ''d'', ''e'', ''f'', ''g'', ''h'', ''i'']
         3 3 True ''FREE'' = Inr bcard"
    and c: "length bcard = nat 3"
    and d: "concat bcard = take (nat (3 div 2 * 3 + 3 div 2)) chosen @ [''FREE'']
              @ drop (nat (3 div 2 * 3 + 3 div 2)) chosen"
    by auto
  from a have e: "chosen = [''h'', ''a'', ''d'', ''f'', ''b'', ''g'', ''c'', ''e'']"
    by (simp add: random_sample_def cells_needed_def)
  have "concat bcard = [''h'', ''a'', ''d'', ''f'', ''FREE'', ''b'', ''g'', ''c'', ''e'']"
    unfolding d e by simp
  then show ?thesis using a b c e by simp
qed

text \<open>
  Claim C3. The free label is placed exactly when free space is requested and both
  \<open>rows\<close> and \<open>cols\<close> are odd. In that case the centre cell
  \<open>(rows div 2, cols div 2)\<close> holds the label and every other cell holds a pool item.
  In every other case, a request on a grid with an even dimension included, the call
  succeeds, every cell holds a pool item, and the card is the same whatever the label is:
  the label is placed nowhere.
\<close>

theorem free_label_placement:
  assumes "1 \<le> rows" and "1 \<le> cols"
    and "valid_picks picks (length items) (cells_needed rows cols use_free_space)"
  shows "\<exists>bcard. generate_card picks items rows cols use_free_space free_space_text = Inr bcard
         \<and> (if use_free_space \<and> rows mod 2 = 1 \<and> cols mod 2 = 1
            then bcard ! nat (rows div 2) ! nat (cols div 2) = free_space_text
               \<and> (\<forall>r < nat rows. \<forall>c < nat cols.
                     (r, c) \<noteq> (nat (rows div 2), nat (cols div 2)) \<longrightarrow> bcard ! r ! c \<in> set items)
            else (\<forall>r < nat rows. \<forall>c < nat cols. bcard ! r ! c \<in> set items)
               \<and> (\<forall>other. generate_card picks items rows cols use_free_space other = Inr bcard))"
proof -
  let ?ch = "map (\<lambda>i. items ! i) picks"
  let ?n = "nat cols"
  let ?R = "nat rows"
  let ?m = "nat (rows div 2 * cols + cols div 2)"
  let ?app = "use_free_space \<and> rows mod 2 = 1 \<and> cols mod 2 = 1"
  have len: "int (length picks) = cells_needed rows cols use_free_space"
    and bound: "\<forall>i \<in> set picks. i < length items"
    using assms(3) by (auto simp: valid_picks_def)
  have sub: "set ?ch \<subseteq> set items" using bound by (rule chosen_subset)
  have total: "nat (rows * cols) = ?R * ?n"
    using assms(1) by (simp add: nat_mult_distrib)
  from generate_card_core [OF assms, of free_space_text]
  obtain bc where gen: "generate_card picks items rows cols use_free_space free_space_text = Inr bc"
    and lbc: "length bc = ?R"
    and shp: "\<forall>row \<in> set bc. length row = ?n"
    and cat: "concat bc = (if ?app then take ?m ?ch @ [free_space_text] @ drop ?m ?ch else ?ch)"
    by blast
  have cell: "bc ! r ! c = concat bc ! (r * ?n + c)" if "r < ?R" "c < ?n" for r c
    using concat_nth_uniform [OF shp, of r c] that lbc by simp
  show ?thesis
  proof (cases ?app)
    case True
    have m: "?m = nat (rows div 2) * ?n + nat (cols div 2)"
      and kr: "nat (rows div 2) < ?R" and kc: "nat (cols div 2) < ?n"
      using center_index [OF assms(1,2)] by auto
    have lch: "length ?ch = ?R * ?n - 1"
      using len True total by (auto simp: cells_needed_def)
    have mlt: "?m < ?R * ?n" unfolding m using kr kc by (rule cell_index_bound)
    then have mle: "?m \<le> length ?ch" using lch by linarith
    then have lt: "length (take ?m ?ch) = ?m" by simp
    have cat': "concat bc = take ?m ?ch @ [free_space_text] @ drop ?m ?ch"
      using cat True by simp
    have "concat bc ! ?m = free_space_text"
      unfolding cat' using nth_append_length [of "take ?m ?ch" free_space_text "drop ?m ?ch"]
      by (simp only: lt append_Cons append_Nil)
    then have centre: "bc ! nat (rows div 2) ! nat (cols div 2) = free_space_text"
      using cell [OF kr kc] m by simp
    have others: "bc ! r ! c \<in> set items"
      if r: "r < ?R" and c: "c < ?n" and ne: "(r, c) \<noteq> (nat (rows div 2), nat (cols div 2))" for r c
    proof -
      have "r * ?n + c \<noteq> nat (rows div 2) * ?n + nat (cols div 2)"
        using index_unique [OF c kc] ne by blast
      then have pm: "r * ?n + c \<noteq> ?m" using m by simp
      have "r * ?n + c < ?R * ?n" using r c by (rule cell_index_bound)
      then have ple: "r * ?n + c \<le> length ?ch" using lch by linarith
      have "(take ?m ?ch @ [free_space_text] @ drop ?m ?ch) ! (r * ?n + c) \<in> set ?ch"
        using pm ple mle by (rule insert_nth_other)
      then have "bc ! r ! c \<in> set ?ch" using cell [OF r c] cat' by simp
      then show ?thesis using sub by blast
    qed
    show ?thesis
      using gen True centre others by (intro exI [of _ bc]) auto
  next
    case False
    have lch: "length ?ch = ?R * ?n"
      using len False total by (auto simp: cells_needed_def)
    have cat': "concat bc = ?ch" using cat False by simp
    have every: "bc ! r ! c \<in> set items" if r: "r < ?R" and c: "c < ?n" for r c
    proof -
      have "r * ?n + c < length ?ch" unfolding lch using r c by (rule cell_index_bound)
      then have "?ch ! (r * ?n + c) \<in> set ?ch" by (rule nth_mem)
      then have "bc ! r ! c \<in> set ?ch" using cell [OF r c] cat' by simp
      then show ?thesis using sub by blast
    qed
    have indep: "generate_card picks items rows cols use_free_space other = Inr bc" for other
    proof -
      from generate_card_core [OF assms, of other]
      obtain bc' where gen': "generate_card picks items rows cols use_free_space other = Inr bc'"
        and lbc': "length bc' = ?R"
        and shp': "\<forall>row \<in> set bc'. length row = ?n"
        and cat'': "concat bc' = (if ?app then take ?m ?ch @ [other] @ drop ?m ?ch else ?ch)"
        by blast
      have "concat bc' = concat bc" using cat'' cat' False by simp
      moreover have "length bc' = length bc" using lbc lbc' by simp
      ultimately have "bc' = bc" using shp shp' by (intro uniform_concat_inj [of bc' bc ?n]) auto
      then show ?thesis using gen' by simp
    qed
    show ?thesis
      using gen False every indep by (intro exI [of _ bc]) auto
  qed
qed

theorem free_label_placement_witness:
  "(\<exists>bcard. generate_card [7, 0, 3, 5, 1, 6, 2, 4]
       [''a'', ''b'', ''c'', ''d'', ''e'', ''f'', ''g'', ''h'', ''i''] 3 3 True ''FREE'' = Inr bcard
     \<and> bcard ! 1 ! 1 = ''FREE''
     \<and> bcard ! 0 ! 2 \<in> set [''a'', ''b'', ''c'', ''d'', ''e'', ''f'', ''g'', ''h'', ''i''])
   \<and> (\<exists>bcard. generate_card [3, 0, 2, 1] [''a'', ''b'', ''c'', ''d''] 2 2 True ''FREE'' = Inr bcard
     \<and> generate_card [3, 0, 2, 1] [''a'', ''b'', ''c'', ''d''] 2 2 True ''WILD'' = Inr bcard
     \<and> bcard ! 1 ! 1 \<in> set [''a'', ''b'', ''c'', ''d''])"
proof -
  have h3: "valid_picks [7, 0, 3, 5, 1, 6, 2, 4]
             (length [''a'', ''b'', ''c'', ''d'', ''e'', ''f'', ''g'', ''h'', ''i''])
             (cells_needed 3 3 True)"
    by (simp add: valid_picks_def cells_needed_def)
  have h2: "valid_picks [3, 0, 2, 1] (length [''a'', ''b'', ''c'', ''d'']) (cells_needed 2 2 True)"
    by (simp add: valid_picks_def cells_needed_def)
  have r3: "(1::int) \<le> 3" and r2: "(1::int) \<le> 2" by simp_all
  have n3: "nat 3 = 3" "nat (3 div 2) = 1" and n2: "nat 2 = 2" by simp_all
  from free_label_placement [OF r3 r3 h3, of "''FREE''"]
  obtain b3 where
    g3: "generate_card [7, 0, 3, 5, 1, 6, 2, 4]
          [''a'', ''b'', ''c'', ''d'', ''e'', ''f'', ''g'', ''h'', ''i''] 3 3 True ''FREE'' = Inr b3"
    and c3: "b3 ! nat (3 div 2) ! nat (3 div 2) = ''FREE''"
    and o3: "\<forall>r < nat 3. \<forall>c < nat 3. (r, c) \<noteq> (nat (3 div 2), nat (3 div 2)) \<longrightarrow>
               b3 ! r ! c \<in> set [''a'', ''b'', ''c'', ''d'', ''e'', ''f'', ''g'', ''h'', ''i'']"
    by auto
  from o3 have "(0::nat) < 3 \<longrightarrow> (2::nat) < 3 \<longrightarrow> (0::nat, 2::nat) \<noteq> (1, 1) \<longrightarrow>
       b3 ! 0 ! 2 \<in> set [''a'', ''b'', ''c'', ''d'', ''e'', ''f'', ''g'', ''h'', ''i'']"
    unfolding n3 by blast
  then have m3: "b3 ! 0 ! 2 \<in> set [''a'', ''b'', ''c'', ''d'', ''e'', ''f'', ''g'', ''h'', ''i'']"
    by simp
  from free_label_placement [OF r2 r2 h2, of "''FREE''"]
  obtain b2 where
    g2: "generate_card [3, 0, 2, 1] [''a'', ''b'', ''c'', ''d''] 2 2 True ''FREE'' = Inr b2"
    and e2: "\<forall>r < nat 2. \<forall>c < nat 2. b2 ! r ! c \<in> set [''a'', ''b'', ''c'', ''d'']"
    and i2: "\<forall>other. generate_card [3, 0, 2, 1] [''a'', ''b'', ''c'', ''d''] 2 2 True other = Inr b2"
    by auto
  from e2 have "(1::nat) < 2 \<longrightarrow> (1::nat) < 2 \<longrightarrow> b2 ! 1 ! 1 \<in> set [''a'', ''b'', ''c'', ''d'']"
    unfolding n2 by blast
  then have m2: "b2 ! 1 ! 1 \<in> set [''a'', ''b'', ''c'', ''d'']" by simp
  from i2 have w2: "generate_card [3, 0, 2, 1] [''a'', ''b'', ''c'', ''d''] 2 2 True ''WILD'' = Inr b2"
    by blast
  have "b3 ! 1 ! 1 = ''FREE''" using c3 by simp
  then show ?thesis using g3 m3 g2 w2 m2 by blast
qed

text \<open>
  Claim C2. The sampler draws pool positions, not pool strings: a pool that holds the same
  line twice can put that string into two cells of one card. Here the pool is the two
  lines \<open>a\<close>, \<open>a\<close> and the card is one row of two cells.
\<close>

theorem duplicate_lines_repeat_on_card:
  "generate_card [0, 1] [''a'', ''a''] 1 2 False ''FREE'' = Inr [[''a'', ''a'']]"
  by (simp add: generate_card_def random_sample_def cells_needed_def py_range_def is_free_def
      upt_conv_Cons)

text \<open>
  When the items of the pool are pairwise different, the drawn list \<open>chosen\<close> has no
  repetition, and the non-free cells of the card are exactly \<open>chosen\<close>: no two
  non-free cells hold the same string.
\<close>

theorem distinct_pool_distinct_cells:
  assumes "1 \<le> rows" and "1 \<le> cols"
    and "valid_picks picks (length items) (cells_needed rows cols use_free_space)"
    and "distinct items"
  shows "\<exists>chosen bcard.
           random_sample picks items (cells_needed rows cols use_free_space) = Inr chosen
         \<and> generate_card picks items rows cols use_free_space free_space_text = Inr bcard
         \<and> distinct chosen
         \<and> concat bcard =
              (if use_free_space \<and> rows mod 2 = 1 \<and> cols mod 2 = 1
                then take (nat (rows div 2 * cols + cols div 2)) chosen
                       @ [free_space_text]
                       @ drop (nat (rows div 2 * cols + cols div 2)) chosen
                else chosen)"
proof -
  let ?ch = "map (\<lambda>i. items ! i) picks"
  let ?k = "cells_needed rows cols use_free_space"
  have len: "int (length picks) = ?k" and dist: "distinct picks"
    and bound: "\<forall>i \<in> set picks. i < length items"
    using assms(3) by (auto simp: valid_picks_def)
  have "card (set picks) \<le> card {..<length items}"
    using bound by (intro card_mono) auto
  then have "length picks \<le> length items"
    using dist by (simp add: distinct_card)
  then have smp: "random_sample picks items ?k = Inr ?ch"
    using len by (simp add: random_sample_def)
  have dch: "distinct ?ch" using assms(4) dist bound by (rule chosen_distinct)
  from generate_card_core [OF assms(1-3), of free_space_text]
  obtain bc where "generate_card picks items rows cols use_free_space free_space_text = Inr bc"
    and "concat bc =
           (if use_free_space \<and> rows mod 2 = 1 \<and> cols mod 2 = 1
            then take (nat (rows div 2 * cols + cols div 2)) ?ch @ [free_space_text]
                   @ drop (nat (rows div 2 * cols + cols div 2)) ?ch
            else ?ch)"
    by blast
  then show ?thesis using smp dch
    by (intro exI [of _ ?ch] exI [of _ bc]) simp
qed

theorem distinct_pool_distinct_cells_witness:
  "\<exists>chosen bcard.
     random_sample [3, 0, 2, 1] [''a'', ''b'', ''c'', ''d''] (cells_needed 2 2 False) = Inr chosen
   \<and> generate_card [3, 0, 2, 1] [''a'', ''b'', ''c'', ''d''] 2 2 False ''FREE'' = Inr bcard
   \<and> distinct chosen \<and> concat bcard = chosen"
proof -
  have h: "valid_picks [3, 0, 2, 1] (length [''a'', ''b'', ''c'', ''d'']) (cells_needed 2 2 False)"
    by (simp add: valid_picks_def cells_needed_def)
  have r: "(1::int) \<le> 2" by simp
  have d: "distinct [''a'', ''b'', ''c'', ''d'']" by simp
  from distinct_pool_distinct_cells [OF r r h d, of "''FREE''"]
  show ?thesis by auto
qed

section \<open>Claims about the text fit\<close>

text \<open>
  Claim C5. For every text, font, available width and height, and whatever the wrapper and
  the measuring function return, the search succeeds with one of the candidate sizes
  11, 10, ..., 6 and the layout recorded for that size. If some candidate passes both tests
  (block height at most the available height, every wrapped line at most the available
  width), the chosen size passes them too and no candidate that passes is larger: the
  largest fitting size is chosen.
\<close>

theorem text_fit_picks_largest:
  "\<exists>ops layout.
     text_fit wrap string_width text font_name max_w max_h = Inr (ops, layout)
   \<and> layout = layout_at wrap text max_w (fit_size layout)
   \<and> fit_size layout \<in> set (py_range_down CELL_FONT_SIZE 5)
   \<and> (\<forall>s \<in> set (py_range_down CELL_FONT_SIZE 5).
         fits_at wrap string_width text font_name max_w max_h s \<longrightarrow>
           fits_at wrap string_width text font_name max_w max_h (fit_size layout)
           \<and> s \<le> fit_size layout)"
proof (cases rule: text_fit_cases [of wrap string_width "text" font_name max_w max_h])
  case (found ops s)
  then show ?thesis
    by (intro exI [of _ ops] exI [of _ "layout_at wrap text max_w s"]) (simp add: layout_at_size)
next
  case (fallback ops)
  then show ?thesis
    by (intro exI [of _ ops] exI [of _ "layout_at wrap text max_w 6"])
       (simp add: layout_at_size font_sizes)
qed

theorem text_fit_picks_largest_witness:
  "\<exists>ops layout.
     text_fit token_wrap helvetica_width ''WWWWWW'' ''Helvetica'' 50 50 = Inr (ops, layout)
   \<and> fit_size layout = 8
   \<and> fits_at token_wrap helvetica_width ''WWWWWW'' ''Helvetica'' 50 50 8
   \<and> \<not> fits_at token_wrap helvetica_width ''WWWWWW'' ''Helvetica'' 50 50 9
   \<and> \<not> fits_at token_wrap helvetica_width ''WWWWWW'' ''Helvetica'' 50 50 10
   \<and> \<not> fits_at token_wrap helvetica_width ''WWWWWW'' ''Helvetica'' 50 50 11"
proof -
  let ?fits = "fits_at token_wrap helvetica_width ''WWWWWW'' ''Helvetica'' 50 50"
  have f8: "?fits 8" and n9: "\<not> ?fits 9" and n10: "\<not> ?fits 10" and n11: "\<not> ?fits 11"
    by (simp_all add: fits_at_def wrap_width_50 token_wrap_def helvetica_width_def)
  from text_fit_picks_largest [of token_wrap helvetica_width "''WWWWWW''" "''Helvetica''" 50 50]
  obtain ops layout where
    tf: "text_fit token_wrap helvetica_width ''WWWWWW'' ''Helvetica'' 50 50 = Inr (ops, layout)"
    and mem: "fit_size layout \<in> set (py_range_down CELL_FONT_SIZE 5)"
    and big: "\<forall>s \<in> set (py_range_down CELL_FONT_SIZE 5). ?fits s \<longrightarrow>
                ?fits (fit_size layout) \<and> s \<le> fit_size layout"
    by blast
  have "8 \<in> set (py_range_down CELL_FONT_SIZE 5)" by (simp add: font_sizes)
  with big f8 have "?fits (fit_size layout)" "8 \<le> fit_size layout" by blast+
  moreover from mem have "fit_size layout \<in> {11, 10, 9, 8, 7, 6}" by (simp add: font_sizes)
  ultimately have "fit_size layout = 8" using n9 n10 n11 by auto
  then show ?thesis using tf f8 n9 n10 n11 by blast
qed

text \<open>
  Claim C6. \<open>_draw_cell_text\<close> never raises, whatever the text, the cell and the
  collaborators' answers: it returns its canvas calls. The search always returns a size
  and wrapped lines, and when no candidate size passes both tests the result is the
  layout of the minimum size 6, accepted without a test.
\<close>

theorem text_fit_fallback:
  "(\<exists>ops. draw_cell_text wrap string_width text x y w h isfree = Inr ops)
   \<and> (\<exists>ops layout.
         text_fit wrap string_width text font_name max_w max_h = Inr (ops, layout)
       \<and> (list_all (\<lambda>s. \<not> fits_at wrap string_width text font_name max_w max_h s)
             (py_range_down CELL_FONT_SIZE 5)
            \<longrightarrow> layout = layout_at wrap text max_w 6))"
proof
  let ?f = "if isfree then ''Helvetica-Bold'' else ''Helvetica''"
  obtain ops l where "text_fit wrap string_width text ?f (w - 2 * 4) (h - 2 * 4) = Inr (ops, l)"
    using text_fit_find [of wrap string_width "text" ?f "w - 2 * 4" "h - 2 * 4"] by blast
  then show "\<exists>ops. draw_cell_text wrap string_width text x y w h isfree = Inr ops"
    by (simp add: draw_cell_text_def Let_def)
next
  show "\<exists>ops layout.
         text_fit wrap string_width text font_name max_w max_h = Inr (ops, layout)
       \<and> (list_all (\<lambda>s. \<not> fits_at wrap string_width text font_name max_w max_h s)
             (py_range_down CELL_FONT_SIZE 5)
            \<longrightarrow> layout = layout_at wrap text max_w 6)"
  proof (cases rule: text_fit_cases [of wrap string_width "text" font_name max_w max_h])
    case (found ops s)
    then show ?thesis
      by (intro exI [of _ ops] exI [of _ "layout_at wrap text max_w s"]) (auto simp: list_all_iff)
  next
    case (fallback ops)
    then show ?thesis by blast
  qed
qed

theorem text_fit_fallback_witness:
  "(\<exists>ops. draw_cell_text token_wrap helvetica_width ''WWWWWWWWWWWWWWWWWWWWWWWWWWWWWW''
      0 0 40 20 False = Inr ops)
   \<and> (\<exists>ops layout.
        text_fit token_wrap helvetica_width ''WWWWWWWWWWWWWWWWWWWWWWWWWWWWWW'' ''Helvetica'' 32 12
          = Inr (ops, layout)
      \<and> fit_size layout = 6
      \<and> fit_wrapped layout = [''WWWWWWWWWW'', ''WWWWWWWWWW'', ''WWWWWWWWWW''])"
proof -
  let ?t = "''WWWWWWWWWWWWWWWWWWWWWWWWWWWWWW''"
  have none: "list_all (\<lambda>s. \<not> fits_at token_wrap helvetica_width ?t ''Helvetica'' 32 12 s)
                (py_range_down CELL_FONT_SIZE 5)"
    by (simp add: font_sizes fits_at_def wrap_width_32 token_wrap_def)
  from text_fit_fallback [of token_wrap helvetica_width ?t 0 0 40 20 False "''Helvetica''" 32 12]
  obtain ops1 ops layout where
    d: "draw_cell_text token_wrap helvetica_width ?t 0 0 40 20 False = Inr ops1"
    and tf: "text_fit token_wrap helvetica_width ?t ''Helvetica'' 32 12 = Inr (ops, layout)"
    and fb: "list_all (\<lambda>s. \<not> fits_at token_wrap helvetica_width ?t ''Helvetica'' 32 12 s)
               (py_range_down CELL_FONT_SIZE 5)
             \<longrightarrow> layout = layout_at token_wrap ?t 32 6"
    by blast
  from fb none have "layout = layout_at token_wrap ?t 32 6" by blast
  then have "fit_size layout = 6"
    "fit_wrapped layout = [''WWWWWWWWWW'', ''WWWWWWWWWW'', ''WWWWWWWWWW'']"
    by (simp_all add: layout_at_def wrap_width_32 token_wrap_def)
  then show ?thesis using d tf by blast
qed

text \<open>
  Claim C9 fails as stated: fit is decided by measured widths and line counts, not by the
  number of characters. In a cell with 50 points of width and height available, eight
  letters \<open>W\<close> fit only at size 6, while nine letters \<open>i\<close> fit at size 11.
\<close>

theorem longer_text_larger_font:
  "length ''WWWWWWWW'' < length ''iiiiiiiii''
   \<and> text_fit token_wrap helvetica_width ''WWWWWWWW'' ''Helvetica'' 50 50 =
       Inr ([SetFont ''Helvetica'' 11, SetFont ''Helvetica'' 10, SetFont ''Helvetica'' 9,
             SetFont ''Helvetica'' 8, SetFont ''Helvetica'' 7, SetFont ''Helvetica'' 6],
            \<lparr>fit_size = 6, fit_wrapped = [''WWWWWWWW''],
             fit_line_height = 36 / 5, fit_total_text_h = 36 / 5\<rparr>)
   \<and> text_fit token_wrap helvetica_width ''iiiiiiiii'' ''Helvetica'' 50 50 =
       Inr ([SetFont ''Helvetica'' 11],
            \<lparr>fit_size = 11, fit_wrapped = [''iiiiiiiii''],
             fit_line_height = 66 / 5, fit_total_text_h = 66 / 5\<rparr>)"
  by (simp add: text_fit_def font_sizes textwrap_wrap_def wrap_width_50 token_wrap_def
      helvetica_width_def Let_def)

text \<open>
  Claim C9, amended. For a fixed cell and otherwise identical conditions, if at every
  candidate size at which the longer string passes both fit tests the shorter string passes
  them too, then the longer string never yields a strictly larger font size than the
  shorter one.
\<close>

theorem text_fit_monotone_when_fit_carries_over:
  assumes "length shorter < length longer"
    and "\<forall>s \<in> set (py_range_down CELL_FONT_SIZE 5).
           fits_at wrap string_width longer font_name max_w max_h s \<longrightarrow>
           fits_at wrap string_width shorter font_name max_w max_h s"
  shows "\<exists>ops1 layout1 ops2 layout2.
           text_fit wrap string_width shorter font_name max_w max_h = Inr (ops1, layout1)
         \<and> text_fit wrap string_width longer font_name max_w max_h = Inr (ops2, layout2)
         \<and> fit_size layout2 \<le> fit_size layout1"
proof -
  from text_fit_size_bounds [of wrap string_width shorter font_name max_w max_h]
  obtain ops1 l1 where s1: "text_fit wrap string_width shorter font_name max_w max_h = Inr (ops1, l1)"
    and lo: "6 \<le> fit_size l1" by blast
  show ?thesis
  proof (cases rule: text_fit_cases [of wrap string_width longer font_name max_w max_h])
    case (found ops2 s)
    from assms(2) found(2,3) have fs: "fits_at wrap string_width shorter font_name max_w max_h s"
      by blast
    have "s \<le> fit_size l1"
    proof (cases rule: text_fit_cases [of wrap string_width shorter font_name max_w max_h])
      case (found ops s')
      with s1 have "l1 = layout_at wrap shorter max_w s'" by simp
      then have "fit_size l1 = s'" by (simp add: layout_at_size)
      then show ?thesis using found(4) fs \<open>s \<in> set (py_range_down CELL_FONT_SIZE 5)\<close> by blast
    next
      case (fallback ops)
      then show ?thesis using fs \<open>s \<in> set (py_range_down CELL_FONT_SIZE 5)\<close> by blast
    qed
    then show ?thesis using s1 found(1) by (auto simp: layout_at_size)
  next
    case (fallback ops2)
    then show ?thesis using s1 lo by (auto simp: layout_at_size)
  qed
qed

theorem text_fit_monotone_when_fit_carries_over_witness:
  "\<exists>ops1 layout1 ops2 layout2.
     text_fit token_wrap helvetica_width ''WWWW'' ''Helvetica'' 50 50 = Inr (ops1, layout1)
   \<and> text_fit token_wrap helvetica_width ''WWWWWWWW'' ''Helvetica'' 50 50 = Inr (ops2, layout2)
   \<and> fit_size layout2 \<le> fit_size layout1"
proof -
  have l: "length ''WWWW'' < length ''WWWWWWWW''" by simp
  have h: "\<forall>s \<in> set (py_range_down CELL_FONT_SIZE 5).
           fits_at token_wrap helvetica_width ''WWWWWWWW'' ''Helvetica'' 50 50 s \<longrightarrow>
           fits_at token_wrap helvetica_width ''WWWW'' ''Helvetica'' 50 50 s"
    by (simp add: font_sizes fits_at_def wrap_width_50 token_wrap_def helvetica_width_def)
  from text_fit_monotone_when_fit_carries_over [OF l h] show ?thesis .
qed

text \<open>
  Claim C10. For every text and cell, degenerate cells with \<open>w - 2 * padding \<le> 0\<close>
  included (\<open>padding = 4\<close>), the chosen font size lies in \<open>[6, 11]\<close>, the wrapped
  lines are the wrapper's answer for that size, every width handed to the wrapper is at
  least 8, so the wrapper never raises, and the routine returns.
\<close>

theorem text_fit_size_range:
  "(\<exists>ops layout.
      text_fit wrap string_width text font_name (w - 2 * 4) (h - 2 * 4) = Inr (ops, layout)
    \<and> 6 \<le> fit_size layout \<and> fit_size layout \<le> 11
    \<and> fit_wrapped layout = wrap text (wrap_width (w - 2 * 4) (fit_size layout)))
   \<and> (\<forall>fsize. 8 \<le> wrap_width (w - 2 * 4) fsize)
   \<and> (\<forall>fsize. textwrap_wrap wrap text (wrap_width (w - 2 * 4) fsize)
         = Inr (wrap text (wrap_width (w - 2 * 4) fsize)))
   \<and> (\<exists>ops. draw_cell_text wrap string_width text x y w h isfree = Inr ops)"
proof -
  have a: "\<exists>ops layout.
      text_fit wrap string_width text font_name (w - 2 * 4) (h - 2 * 4) = Inr (ops, layout)
    \<and> 6 \<le> fit_size layout \<and> fit_size layout \<le> 11
    \<and> fit_wrapped layout = wrap text (wrap_width (w - 2 * 4) (fit_size layout))"
  proof (cases rule: text_fit_cases [of wrap string_width "text" font_name "w - 2 * 4" "h - 2 * 4"])
    case (found ops s)
    from found(3) have "6 \<le> s \<and> s \<le> 11" by (auto simp: font_sizes)
    then show ?thesis using found(1)
      by (intro exI [of _ ops] exI [of _ "layout_at wrap text (w - 2 * 4) s"])
         (simp add: layout_at_def)
  next
    case (fallback ops)
    then show ?thesis
      by (intro exI [of _ ops] exI [of _ "layout_at wrap text (w - 2 * 4) 6"])
         (simp add: layout_at_def)
  qed
  let ?f = "if isfree then ''Helvetica-Bold'' else ''Helvetica''"
  obtain ops l where "text_fit wrap string_width text ?f (w - 2 * 4) (h - 2 * 4) = Inr (ops, l)"
    using text_fit_find [of wrap string_width "text" ?f "w - 2 * 4" "h - 2 * 4"] by blast
  then have d: "\<exists>ops. draw_cell_text wrap string_width text x y w h isfree = Inr ops"
    by (simp add: draw_cell_text_def Let_def)
  show ?thesis using a d wrap_width_ge textwrap_wrap_ok by blast
qed


end
